theory Spec2Isabelle
  imports Complex_Main
begin

section \<open>Python strings\<close>

text \<open>
  A Python \<open>str\<close> is a sequence of Unicode code points; \<open>len\<close> counts code points.
  The transcript cleaner of \<^verbatim>\<open>ucsd_podcast_transcriber.py\<close> receives text with CJK,
  Hangul, Kana, Cyrillic and accented Latin characters, so a string is a list of code
  points (integers), not a list of bytes.
\<close>

type_synonym pystr = "int list"

definition asc :: "string \<Rightarrow> pystr" where
  "asc s = map of_char s"

text \<open>
  \<open>str.isspace\<close> of one character, which is also \<open>\s\<close> of the \<open>re\<close> module on \<open>str\<close>
  patterns and the set that \<open>str.strip()\<close> and \<open>str.split()\<close> use. The list is complete
  (CPython 3: U+0009..U+000D, U+001C..U+0020, U+0085, U+00A0, U+1680, U+2000..U+200A,
  U+2028, U+2029, U+202F, U+205F, U+3000).
\<close>

definition isspace :: "int \<Rightarrow> bool" where
  "isspace c = ((9 \<le> c \<and> c \<le> 13) \<or> (28 \<le> c \<and> c \<le> 32) \<or> c = 133 \<or> c = 160
      \<or> c = 5760 \<or> (8192 \<le> c \<and> c \<le> 8202) \<or> c = 8232 \<or> c = 8233 \<or> c = 8239
      \<or> c = 8287 \<or> c = 12288)"

definition lstrip :: "pystr \<Rightarrow> pystr" where
  "lstrip s = dropWhile isspace s"

definition strip :: "pystr \<Rightarrow> pystr" where
  "strip s = rev (dropWhile isspace (rev (dropWhile isspace s)))"

text \<open>\<open>str.split()\<close> without arguments: the maximal runs of non-whitespace characters.\<close>

fun split_ws_acc :: "pystr \<Rightarrow> pystr \<Rightarrow> pystr list" where
  "split_ws_acc w [] = (if w = [] then [] else [w])"
| "split_ws_acc w (c # cs) =
     (if isspace c then (if w = [] then split_ws_acc [] cs else w # split_ws_acc [] cs)
      else split_ws_acc (w @ [c]) cs)"

definition py_split :: "pystr \<Rightarrow> pystr list" where
  "py_split s = split_ws_acc [] s"

text \<open>\<open>' '.join(xs)\<close>.\<close>

fun join_sp :: "pystr list \<Rightarrow> pystr" where
  "join_sp [] = []"
| "join_sp [x] = x"
| "join_sp (x # y # ys) = x @ 32 # join_sp (y # ys)"

text \<open>\<open>a in b\<close> on strings: \<open>a\<close> occurs in \<open>b\<close> as a contiguous substring.\<close>

definition startswith :: "pystr \<Rightarrow> pystr \<Rightarrow> bool" where
  "startswith b a = (take (length a) b = a)"

fun contains :: "pystr \<Rightarrow> pystr \<Rightarrow> bool" where
  "contains a [] = (a = [])"
| "contains a (x # xs) = (startswith (x # xs) a \<or> contains a xs)"

subsection \<open>Indexing and slicing, with Python's errors\<close>

datatype py_error = IndexError | ZeroDivisionError

text \<open>\<open>xs[i]\<close>: a negative index counts from the end; out of range raises IndexError.\<close>

definition py_index :: "'a list \<Rightarrow> int \<Rightarrow> py_error + 'a" where
  "py_index xs i =
     (if 0 \<le> i \<and> i < int (length xs) then Inr (xs ! nat i)
      else if i < 0 \<and> - int (length xs) \<le> i then Inr (xs ! nat (int (length xs) + i))
      else Inl IndexError)"

text \<open>
  \<open>xs[lo:hi]\<close> and \<open>xs[lo:]\<close>: a slice never raises; a negative bound counts from the
  end, and both bounds are clamped to \<open>0..len(xs)\<close>.
\<close>

definition clamp_bound :: "nat \<Rightarrow> int \<Rightarrow> nat" where
  "clamp_bound n i =
     (let j = (if i < 0 then i + int n else i)
      in if j < 0 then 0 else if j > int n then n else nat j)"

definition py_slice :: "'a list \<Rightarrow> int \<Rightarrow> int \<Rightarrow> 'a list" where
  "py_slice xs lo hi =
     (let a = clamp_bound (length xs) lo; b = clamp_bound (length xs) hi
      in take (b - a) (drop a xs))"

definition py_slice_from :: "'a list \<Rightarrow> int \<Rightarrow> 'a list" where
  "py_slice_from xs lo = drop (clamp_bound (length xs) lo) xs"

text \<open>
  \<open>a / b\<close> on integers is true division: it raises ZeroDivisionError for \<open>b = 0\<close>. The
  quotient is kept exact (a rational). The source compares it with \<open>0.25\<close>, which is a
  binary fraction, and correctly rounded division is monotone, so the comparison of the
  rounded quotient has the same outcome as the exact one for every word count below
  \<open>2^53\<close>.
\<close>

definition truediv :: "int \<Rightarrow> int \<Rightarrow> py_error + rat" where
  "truediv a b = (if b = 0 then Inl ZeroDivisionError else Inr (of_int a / of_int b))"

text \<open>
  \<open>Counter(xs).most_common(1)[0]\<close>: the first key, in order of first occurrence, with the
  largest count, and that count; \<open>[0]\<close> of the empty list raises IndexError.
\<close>

definition counter :: "'a list \<Rightarrow> ('a \<times> nat) list" where
  "counter xs = map (\<lambda>x. (x, count_list xs x)) (rev (remdups (rev xs)))"

fun best_of :: "'a \<times> nat \<Rightarrow> ('a \<times> nat) list \<Rightarrow> 'a \<times> nat" where
  "best_of b [] = b"
| "best_of b (x # xs) = best_of (if snd b < snd x then x else b) xs"

definition most_common1 :: "'a list \<Rightarrow> py_error + ('a \<times> nat)" where
  "most_common1 xs = (case counter xs of [] \<Rightarrow> Inl IndexError | x # rest \<Rightarrow> Inr (best_of x rest))"

section \<open>The Unicode tables of the Python runtime\<close>

text \<open>
  Three tables of the interpreter are used by the cleaner and are not part of the
  repository: which characters are alphanumeric (\<open>\b\<close> of \<open>re\<close> separates word characters,
  \<open>str.isalnum\<close> or underscore, from the rest), \<open>str.lower\<close>, and the case-insensitive
  equivalents that \<open>re.IGNORECASE\<close> consults. They are a parameter of the model: every
  function below takes the runtime \<open>R\<close>.
\<close>

record pyrt =
  isalnum :: "int \<Rightarrow> bool"
  lower :: "pystr \<Rightarrow> pystr"
  case_equiv :: "int \<Rightarrow> int list"

text \<open>
  The tables of CPython 3 on the code points U+0000..U+00FF and on the caseless scripts
  that the hallucination patterns name (Hangul syllables, CJK ideographs U+4E00..U+9FAF,
  Hiragana and Katakana). On every string made of these characters \<open>latin1_rt\<close> gives what
  Python gives; other code points are treated as caseless non-word characters.
  \<open>case_equiv\<close> lists the other-case forms below U+0100 only: it is consulted for
  membership in the sets and literals of a pattern, and the patterns of this program
  contain no character above U+00FF that has a case.
\<close>

definition latin1_isalnum :: "int \<Rightarrow> bool" where
  "latin1_isalnum c =
     ((48 \<le> c \<and> c \<le> 57) \<or> (65 \<le> c \<and> c \<le> 90) \<or> (97 \<le> c \<and> c \<le> 122)
      \<or> c = 170 \<or> c = 178 \<or> c = 179 \<or> c = 181 \<or> c = 185 \<or> c = 186
      \<or> (188 \<le> c \<and> c \<le> 190) \<or> (192 \<le> c \<and> c \<le> 214) \<or> (216 \<le> c \<and> c \<le> 246)
      \<or> (248 \<le> c \<and> c \<le> 255)
      \<or> (44032 \<le> c \<and> c \<le> 55203) \<or> (19968 \<le> c \<and> c \<le> 40879)
      \<or> (12353 \<le> c \<and> c \<le> 12435) \<or> (12449 \<le> c \<and> c \<le> 12531))"

definition latin1_upper_case :: "int \<Rightarrow> bool" where
  "latin1_upper_case c = ((65 \<le> c \<and> c \<le> 90) \<or> (192 \<le> c \<and> c \<le> 222 \<and> c \<noteq> 215))"

definition latin1_lower_case :: "int \<Rightarrow> bool" where
  "latin1_lower_case c = ((97 \<le> c \<and> c \<le> 122) \<or> (224 \<le> c \<and> c \<le> 254 \<and> c \<noteq> 247))"

definition latin1_rt :: pyrt where
  "latin1_rt = \<lparr>
     isalnum = latin1_isalnum,
     lower = map (\<lambda>c. if latin1_upper_case c then c + 32 else c),
     case_equiv = (\<lambda>c. if latin1_upper_case c then [c + 32]
                        else if latin1_lower_case c then [c - 32] else []) \<rparr>"

section \<open>The regular expressions of the \<open>re\<close> module\<close>

text \<open>
  The constructs that the patterns of \<open>clean_transcript\<close> use. \<open>Cls\<close> is a character set
  \<open>[...]\<close> given by its ranges, \<open>Space\<close> is \<open>\s\<close>, \<open>Opt\<close> and \<open>Star\<close> are the greedy \<open>?\<close> and
  \<open>*\<close>, \<open>WordB\<close> is \<open>\b\<close>, \<open>Bol\<close> and \<open>Eol\<close> are \<open>^\<close> and \<open>$\<close> (without MULTILINE),
  \<open>Behind\<close> is a look-behind \<open>(?<=[...])\<close> for one character of a set.
\<close>

datatype regex =
    Lit pystr
  | Cls "(int \<times> int) list"
  | Space
  | Seq regex regex
  | Alt regex regex
  | Opt regex
  | Star regex
  | WordB
  | Bol
  | Eol
  | Behind "(int \<times> int) list"

definition Plus :: "regex \<Rightarrow> regex" where
  "Plus r = Seq r (Star r)"

fun alts :: "regex list \<Rightarrow> regex" where
  "alts [] = Lit []"
| "alts [r] = r"
| "alts (r # rs) = Alt r (alts rs)"

fun seqs :: "regex list \<Rightarrow> regex" where
  "seqs [] = Lit []"
| "seqs [r] = r"
| "seqs (r # rs) = Seq r (seqs rs)"

definition L :: "string \<Rightarrow> regex" where
  "L s = Lit (asc s)"

text \<open>
  A position in the subject string: the character before it (none at the start) and the
  text from it on. That is all that \<open>\b\<close>, \<open>^\<close>, \<open>$\<close> and the look-behind inspect.
\<close>

type_synonym cursor = "int option \<times> pystr"

definition in_ranges :: "(int \<times> int) list \<Rightarrow> int \<Rightarrow> bool" where
  "in_ranges rs c = list_ex (\<lambda>(lo, hi). lo \<le> c \<and> c \<le> hi) rs"

definition in_cls :: "pyrt \<Rightarrow> bool \<Rightarrow> (int \<times> int) list \<Rightarrow> int \<Rightarrow> bool" where
  "in_cls R ic rs c = (in_ranges rs c \<or> (ic \<and> list_ex (in_ranges rs) (case_equiv R c)))"

definition chr_eq :: "pyrt \<Rightarrow> bool \<Rightarrow> int \<Rightarrow> int \<Rightarrow> bool" where
  "chr_eq R ic c x = (c = x \<or> (ic \<and> c \<in> set (case_equiv R x)))"

definition is_word :: "pyrt \<Rightarrow> int \<Rightarrow> bool" where
  "is_word R c = (isalnum R c \<or> c = 95)"

definition at_boundary :: "pyrt \<Rightarrow> cursor \<Rightarrow> bool" where
  "at_boundary R cur =
     ((case fst cur of None \<Rightarrow> False | Some c \<Rightarrow> is_word R c)
      \<noteq> (case snd cur of [] \<Rightarrow> False | c # _ \<Rightarrow> is_word R c))"

text \<open>
  The backtracking matcher: all the positions where a match of \<open>r\<close> that starts at the
  cursor can end, in the order in which \<open>re\<close> tries them (the left alternative first, a
  greedy operator first with one more repetition). The head of the list is the match that
  \<open>re\<close> reports at this start position. \<open>ic\<close> is the flag \<open>re.IGNORECASE\<close>. A repetition
  of \<open>Star\<close> that consumes nothing is not iterated.
\<close>

fun rmatch :: "pyrt \<Rightarrow> bool \<Rightarrow> regex \<Rightarrow> cursor \<Rightarrow> cursor list" where
  "rmatch R ic (Lit []) cur = [cur]"
| "rmatch R ic (Lit (c # cs)) (p, []) = []"
| "rmatch R ic (Lit (c # cs)) (p, x # xs) =
     (if chr_eq R ic c x then rmatch R ic (Lit cs) (Some x, xs) else [])"
| "rmatch R ic (Cls rs) (p, []) = []"
| "rmatch R ic (Cls rs) (p, x # xs) = (if in_cls R ic rs x then [(Some x, xs)] else [])"
| "rmatch R ic Space (p, []) = []"
| "rmatch R ic Space (p, x # xs) = (if isspace x then [(Some x, xs)] else [])"
| "rmatch R ic (Seq a b) cur = concat (map (rmatch R ic b) (rmatch R ic a cur))"
| "rmatch R ic (Alt a b) cur = rmatch R ic a cur @ rmatch R ic b cur"
| "rmatch R ic (Opt a) cur = rmatch R ic a cur @ [cur]"
| "rmatch R ic (Star a) cur =
     concat (map (\<lambda>c'. if length (snd c') < length (snd cur) then rmatch R ic (Star a) c' else [])
                 (rmatch R ic a cur)) @ [cur]"
| "rmatch R ic WordB cur = (if at_boundary R cur then [cur] else [])"
| "rmatch R ic Bol cur = (if fst cur = None then [cur] else [])"
| "rmatch R ic Eol cur = (if snd cur = [] \<or> snd cur = [10] then [cur] else [])"
| "rmatch R ic (Behind rs) cur =
     (case fst cur of None \<Rightarrow> [] | Some c \<Rightarrow> if in_ranges rs c then [cur] else [])"

text \<open>
  \<open>re.search\<close>: the first start position, from the left, at which the pattern matches;
  the result is \<open>match.start()\<close> and the cursor at the end of the match.
\<close>

fun search_from :: "pyrt \<Rightarrow> bool \<Rightarrow> regex \<Rightarrow> nat \<Rightarrow> cursor \<Rightarrow> (nat \<times> cursor) option" where
  "search_from R ic r i (p, []) =
     (case rmatch R ic r (p, []) of c # _ \<Rightarrow> Some (i, c) | [] \<Rightarrow> None)"
| "search_from R ic r i (p, x # xs) =
     (case rmatch R ic r (p, x # xs) of c # _ \<Rightarrow> Some (i, c)
      | [] \<Rightarrow> search_from R ic r (Suc i) (Some x, xs))"

definition re_search :: "pyrt \<Rightarrow> regex \<Rightarrow> pystr \<Rightarrow> (nat \<times> cursor) option" where
  "re_search R r s = search_from R False r 0 (None, s)"

text \<open>
  \<open>re.sub\<close>, \<open>re.split\<close> and \<open>re.findall\<close> scan from the left, take the match that \<open>re\<close> reports
  at the first position that has one, and go on after it. The patterns that the cleaner
  passes to them match at least one character (\<open>consuming\<close> below is the syntactic test
  for that); the branch for an empty match (the replacement or an empty piece, then one
  character further) is never taken by them.
\<close>

fun sub_from :: "pyrt \<Rightarrow> bool \<Rightarrow> regex \<Rightarrow> pystr \<Rightarrow> cursor \<Rightarrow> pystr" where
  "sub_from R ic r repl (p, xs) =
     (case rmatch R ic r (p, xs) of
        [] \<Rightarrow> (case xs of [] \<Rightarrow> [] | x # xs' \<Rightarrow> x # sub_from R ic r repl (Some x, xs'))
      | c # _ \<Rightarrow>
          if length (snd c) < length xs then repl @ sub_from R ic r repl c
          else repl @ (case xs of [] \<Rightarrow> [] | x # xs' \<Rightarrow> x # sub_from R ic r repl (Some x, xs')))"

definition re_sub :: "pyrt \<Rightarrow> bool \<Rightarrow> regex \<Rightarrow> pystr \<Rightarrow> pystr \<Rightarrow> pystr" where
  "re_sub R ic r repl s = sub_from R ic r repl (None, s)"

fun split_from :: "pyrt \<Rightarrow> regex \<Rightarrow> pystr \<Rightarrow> cursor \<Rightarrow> pystr list" where
  "split_from R r piece (p, xs) =
     (case rmatch R False r (p, xs) of
        [] \<Rightarrow> (case xs of [] \<Rightarrow> [piece] | x # xs' \<Rightarrow> split_from R r (piece @ [x]) (Some x, xs'))
      | c # _ \<Rightarrow>
          if length (snd c) < length xs then piece # split_from R r [] c
          else piece # (case xs of [] \<Rightarrow> [[]] | x # xs' \<Rightarrow> split_from R r [x] (Some x, xs')))"

definition re_split :: "pyrt \<Rightarrow> regex \<Rightarrow> pystr \<Rightarrow> pystr list" where
  "re_split R r s = split_from R r [] (None, s)"

fun findall_from :: "pyrt \<Rightarrow> regex \<Rightarrow> cursor \<Rightarrow> pystr list" where
  "findall_from R r (p, xs) =
     (case rmatch R False r (p, xs) of
        [] \<Rightarrow> (case xs of [] \<Rightarrow> [] | x # xs' \<Rightarrow> findall_from R r (Some x, xs'))
      | c # _ \<Rightarrow>
          if length (snd c) < length xs
          then take (length xs - length (snd c)) xs # findall_from R r c
          else [] # (case xs of [] \<Rightarrow> [] | x # xs' \<Rightarrow> findall_from R r (Some x, xs')))"

definition re_findall :: "pyrt \<Rightarrow> regex \<Rightarrow> pystr \<Rightarrow> pystr list" where
  "re_findall R r s = findall_from R r (None, s)"

text \<open>A pattern that cannot match the empty string, by its syntax.\<close>

fun consuming :: "regex \<Rightarrow> bool" where
  "consuming (Lit cs) = (cs \<noteq> [])"
| "consuming (Cls rs) = True"
| "consuming Space = True"
| "consuming (Seq a b) = (consuming a \<or> consuming b)"
| "consuming (Alt a b) = (consuming a \<and> consuming b)"
| "consuming r = False"

section \<open>The transcript cleaner\<close>

subsection \<open>First pass: the hallucination patterns\<close>

definition accented :: "(int \<times> int) list" where
  "accented = map (\<lambda>c. (c, c))
     [228, 246, 252, 225, 233, 237, 243, 250, 224, 232, 236, 242, 249,
      226, 234, 238, 244, 251, 227, 245, 241]"

text \<open>\<^verbatim>\<open>\b[A-Z]?[a-z]*[...][a-z]*\b\<close>, the fifth pattern: words with accented characters.\<close>

definition accent_pattern :: regex where
  "accent_pattern =
     seqs [WordB, Opt (Cls [(65, 90)]), Star (Cls [(97, 122)]), Cls accented,
           Star (Cls [(97, 122)]), WordB]"

definition hallucination_patterns :: "regex list" where
  "hallucination_patterns =
    [Plus (Cls [(44032, 55203)]),
     Plus (Cls [(19968, 40879)]),
     Plus (Cls [(12353, 12435), (12449, 12531)]),
     Plus (Cls [(1072, 1103), (1040, 1071)]),
     accent_pattern,
     seqs [WordB,
           alts [L ''sy'n'', L ''gyms'', L ''gyflen'', L ''newidda'', L ''roedd'', L ''gwilia'',
                 L ''gyfly'', L ''canyan'', L ''ayag'', L ''teu'', L ''aun''],
           WordB],
     seqs [WordB, L ''Iag'', WordB]]"

text \<open>
  \<^verbatim>\<open>for pattern in hallucination_patterns:
      cleaned_text = re.sub(pattern, '', cleaned_text, flags=re.IGNORECASE)\<close>
\<close>

definition normalize_text :: "pyrt \<Rightarrow> pystr \<Rightarrow> pystr" where
  "normalize_text R text = foldl (\<lambda>t pat. re_sub R True pat [] t) text hallucination_patterns"

subsection \<open>Sentences\<close>

text \<open>\<^verbatim>\<open>sentences = re.split(r'(?<=[.!?])\s+', cleaned_text)\<close>\<close>

definition sentence_sep :: regex where
  "sentence_sep = Seq (Behind [(46, 46), (33, 33), (63, 63)]) (Plus Space)"

definition split_sentences :: "pyrt \<Rightarrow> pystr \<Rightarrow> pystr list" where
  "split_sentences R t = re_split R sentence_sep t"

subsection \<open>The coherence test\<close>

definition common_words :: "pystr list" where
  "common_words = map asc
    [''the'', ''a'', ''an'', ''is'', ''are'', ''was'', ''were'', ''be'', ''been'',
     ''have'', ''has'', ''had'', ''do'', ''does'', ''did'', ''will'', ''would'',
     ''could'', ''should'', ''may'', ''might'', ''must'', ''shall'', ''can'',
     ''to'', ''of'', ''in'', ''for'', ''on'', ''with'', ''at'', ''by'', ''from'',
     ''this'', ''that'', ''these'', ''those'', ''it'', ''its'', ''you'', ''your'',
     ''we'', ''our'', ''they'', ''their'', ''i'', ''my'', ''me'', ''he'', ''she'',
     ''and'', ''or'', ''but'', ''if'', ''so'', ''as'', ''what'', ''which'', ''who'',
     ''how'', ''when'', ''where'', ''why'', ''all'', ''each'', ''every'', ''both'',
     ''few'', ''more'', ''most'', ''other'', ''some'', ''such'', ''no'', ''not'',
     ''only'', ''same'', ''than'', ''too'', ''very'', ''just'', ''also'', ''now'',
     ''here'', ''there'', ''then'', ''once'', ''going'', ''want'', ''need'',
     ''like'', ''know'', ''think'', ''see'', ''get'', ''make'', ''take'', ''come'',
     ''right'', ''okay'', ''well'', ''yeah'', ''yes'', ''no'', ''so'', ''really'',
     ''today'', ''already'', ''use'', ''using'', ''copy'', ''local'', ''laptop'']"

text \<open>\<^verbatim>\<open>words = re.findall(r'\b[a-zA-Z]+\b', s.lower())\<close>\<close>

definition word_re :: regex where
  "word_re = seqs [WordB, Plus (Cls [(97, 122), (65, 90)]), WordB]"

definition is_coherent_english :: "pyrt \<Rightarrow> pystr \<Rightarrow> py_error + bool" where
  "is_coherent_english R s0 =
     (let s = strip s0 in
      if s = [] \<or> length s < 10 then Inr False
      else
        let words = re_findall R word_re (lower R s) in
        if length words < 3 then Inr False
        else
          let english_word_count = length (filter (\<lambda>w. w \<in> set common_words) words) in
          if 3 \<le> english_word_count then Inr True
          else if 0 < length words then
            (case truediv (int english_word_count) (int (length words)) of
               Inl e \<Rightarrow> Inl e
             | Inr q \<Rightarrow> Inr (1 / 4 \<le> q))
          else Inr False)"

subsection \<open>Where the content starts\<close>

definition lecture_start_patterns :: "regex list" where
  "lecture_start_patterns =
    [seqs [Opt (alts [L ''okay'', L ''alright'', L ''so'', L ''well'', L ''hey'', L ''hi'',
                      L ''hello'']),
           Opt (L '',''), Star Space, L ''my friends''],
     seqs [Opt (alts [L ''okay'', L ''alright'', L ''so'', L ''well'']),
           Opt (L '',''), Star Space, L ''today''],
     seqs [L ''welcome'', Plus Space, alts [L ''to'', L ''back'', L ''everyone'']],
     seqs [Opt (Seq (L ''good'') (Plus Space)),
           alts [L ''morning'', L ''afternoon'', L ''evening'']],
     seqs [L ''let's'', Plus Space,
           alts [seqs [L ''get'', Plus Space, L ''started''], L ''begin'', L ''start'',
                 L ''talk'', L ''look'']],
     seqs [L ''we're'', Plus Space, L ''going'', Plus Space, L ''to''],
     seqs [L ''going'', Plus Space, L ''to'', Plus Space, L ''be'', Plus Space, L ''a''],
     seqs [L ''hello'', Plus Space, alts [L ''everyone'', L ''everybody'', L ''class'']]]"

text \<open>
  The inner loop over the patterns: the first pattern, in list order, that is found in
  the lower-cased sentence gives \<open>match.start()\<close>; \<open>None\<close> when no pattern is found.
\<close>

fun first_start_match :: "pyrt \<Rightarrow> regex list \<Rightarrow> pystr \<Rightarrow> nat option" where
  "first_start_match R [] s = None"
| "first_start_match R (pat # pats) s =
     (case re_search R pat s of
        Some m \<Rightarrow> Some (fst m)
      | None \<Rightarrow> first_start_match R pats s)"

text \<open>
  The loop \<^verbatim>\<open>for i, sentence in enumerate(sentences)\<close>. The state is
  \<open>(start_index, start_char_offset)\<close>; \<open>rest\<close> is what \<open>enumerate\<close> has still to deliver and
  \<open>i\<close> the index of its head. Each \<open>Inr\<close> that is not a recursive call is a \<open>break\<close> (or the
  end of the loop).
\<close>

fun start_loop ::
  "pyrt \<Rightarrow> pystr list \<Rightarrow> int \<Rightarrow> pystr list \<Rightarrow> int \<times> int \<Rightarrow> py_error + (int \<times> int)" where
  "start_loop R sentences i [] st = Inr st"
| "start_loop R sentences i (sentence # rest) st =
     (let sentence_lower = lower R sentence;
          st1 = (case first_start_match R lecture_start_patterns sentence_lower of
                   Some k \<Rightarrow> (i, int k)
                 | None \<Rightarrow> st)
      in if 0 < snd st1 then Inr st1
         else
           case is_coherent_english R sentence of
             Inl e \<Rightarrow> Inl e
           | Inr coh \<Rightarrow>
               if coh \<and> 50 < length sentence then
                 if i + 2 < int (length sentences) then
                   case py_index sentences (i + 1) of
                     Inl e \<Rightarrow> Inl e
                   | Inr s1 \<Rightarrow>
                      (case is_coherent_english R s1 of
                         Inl e \<Rightarrow> Inl e
                       | Inr c1 \<Rightarrow>
                           if c1 then Inr (i, snd st1)
                           else
                             case py_index sentences (i + 2) of
                               Inl e \<Rightarrow> Inl e
                             | Inr s2 \<Rightarrow>
                                (case is_coherent_english R s2 of
                                   Inl e \<Rightarrow> Inl e
                                 | Inr c2 \<Rightarrow>
                                     if c2 then Inr (i, snd st1)
                                     else start_loop R sentences (i + 1) rest st1))
                 else Inr (i, snd st1)
               else start_loop R sentences (i + 1) rest st1)"

definition find_start :: "pyrt \<Rightarrow> pystr list \<Rightarrow> py_error + (int \<times> int)" where
  "find_start R sentences = start_loop R sentences 0 sentences (0, 0)"

subsection \<open>Where the content ends\<close>

definition chatter_patterns :: "regex list" where
  "chatter_patterns =
    [seqs [Bol, L ''hey'', Opt (L ''.''), Eol],
     L ''am i allowed to'',
     Seq (L ''can i '') (alts [L ''ask'', L ''get'']),
     L ''i love to have'',
     L ''this is like doing'',
     seqs [Bol, L ''okay'', Opt (L ''.''), Eol],
     seqs [Bol, L ''yeah'', Opt (L ''.''), Eol],
     seqs [Bol, L ''right'', Opt (L ''.''), Eol],
     seqs [Bol, L ''sure'', Opt (L ''.''), Eol]]"

text \<open>The inner loop over the chatter patterns: whether some pattern is found.\<close>

definition is_chatter :: "pyrt \<Rightarrow> pystr \<Rightarrow> bool" where
  "is_chatter R s = list_ex (\<lambda>pat. re_search R pat s \<noteq> None) chatter_patterns"

text \<open>
  \<^verbatim>\<open>for i in range(len(sentences) - 1, max(0, len(sentences) - 30), -1)\<close>: the index runs
  downwards while it is greater than \<open>stop\<close>. The state is \<open>chatter_start_index\<close>
  (\<open>None\<close> at first). The \<open>continue\<close> at the end of the body has no effect.
\<close>

function chatter_loop ::
  "pyrt \<Rightarrow> pystr list \<Rightarrow> int \<Rightarrow> int \<Rightarrow> int option \<Rightarrow> py_error + int option" where
  "chatter_loop R sentences i stop chatter_start_index =
     (if stop < i then
        case py_index sentences i of
          Inl e \<Rightarrow> Inl e
        | Inr s \<Rightarrow>
            chatter_loop R sentences (i - 1) stop
              (if is_chatter R (lower R (strip s)) then Some i else chatter_start_index)
      else Inr chatter_start_index)"
  by pat_completeness auto
termination
  by (relation "measure (\<lambda>(R, sentences, i, stop, c). nat (i - stop))") auto

definition find_chatter_start :: "pyrt \<Rightarrow> pystr list \<Rightarrow> py_error + int option" where
  "find_chatter_start R sentences =
     chatter_loop R sentences (int (length sentences) - 1)
       (max 0 (int (length sentences) - 30)) None"

text \<open>
  \<^verbatim>\<open>end_index = len(sentences)\<close>, then \<^verbatim>\<open>if chatter_start_index: end_index = chatter_start_index\<close>.
  The test is Python's truth value of an optional integer: \<open>None\<close> and \<open>0\<close> are false.
\<close>

definition chatter_end :: "pyrt \<Rightarrow> pystr list \<Rightarrow> py_error + int" where
  "chatter_end R sentences =
     (case find_chatter_start R sentences of
        Inl e \<Rightarrow> Inl e
      | Inr None \<Rightarrow> Inr (int (length sentences))
      | Inr (Some c) \<Rightarrow> Inr (if c \<noteq> 0 then c else int (length sentences)))"

definition thank_you_variants :: "pystr list" where
  "thank_you_variants = map asc
    [''thank you.'', ''thank you'', ''thanks.'', ''thanks'',
     ''thank you!'', ''thanks!'', ''bye.'', ''bye'', ''goodbye.'',
     ''goodbye'', ''see you.'', ''see you'', ''okay.'', ''okay'',
     ''alright.'', ''alright'', ''hey.'', ''hey'', ''yeah.'', ''yeah'']"

definition informal_indicators :: "pystr list" where
  "informal_indicators = map asc
    [''okay'', ''alright'', ''hey'', ''yeah'', ''um'', ''uh'',
     ''like'', ''i mean'', ''you know'', ''right'']"

text \<open>
  The three tests of the \<^verbatim>\<open>while\<close> loop on \<open>last_sentence\<close>: a known filler phrase, a very
  short sentence, a sentence that is mostly informal words.
\<close>

definition droppable :: "pystr \<Rightarrow> bool" where
  "droppable last_sentence =
     (if last_sentence \<in> set thank_you_variants then True
      else if length last_sentence < 15 then True
      else
        let word_count = length (py_split last_sentence);
            informal_count = length (filter (\<lambda>ind. contains ind last_sentence) informal_indicators)
        in word_count < 10 \<and> 2 \<le> informal_count)"

text \<open>\<^verbatim>\<open>while end_index > start_index\<close>; the result is the final \<open>end_index\<close>.\<close>

function tail_loop :: "pyrt \<Rightarrow> pystr list \<Rightarrow> int \<Rightarrow> int \<Rightarrow> py_error + int" where
  "tail_loop R sentences start_index end_index =
     (if start_index < end_index then
        case py_index sentences (end_index - 1) of
          Inl e \<Rightarrow> Inl e
        | Inr s \<Rightarrow>
            if droppable (lower R (strip s))
            then tail_loop R sentences start_index (end_index - 1)
            else Inr end_index
      else Inr end_index)"
  by pat_completeness auto
termination
  by (relation "measure (\<lambda>(R, sentences, start_index, end_index). nat (end_index - start_index))")
     auto

subsection \<open>Repetitions at the end\<close>

text \<open>
  \<^verbatim>\<open>for i in range(end_index - 1, max(end_index - 15, start_index), -1)\<close>; the result is
  the final \<open>end_index\<close>. The source tests \<open>count >= len(remaining) * 0.6\<close> in floating
  point; the window has 3 to 14 sentences, and for these lengths the rounded product
  admits the same counts as the exact \<open>3/5\<close> of the length.
\<close>

function repetition_loop ::
  "pyrt \<Rightarrow> pystr list \<Rightarrow> int \<Rightarrow> int \<Rightarrow> int \<Rightarrow> py_error + int" where
  "repetition_loop R sentences end_index i stop =
     (if stop < i then
        let remaining = map (\<lambda>s. lower R (strip s)) (py_slice sentences i end_index) in
        if 3 \<le> length remaining then
          case most_common1 remaining of
            Inl e \<Rightarrow> Inl e
          | Inr mc \<Rightarrow>
              if of_nat (length remaining) * (3 / 5 :: rat) \<le> of_nat (snd mc) then Inr i
              else repetition_loop R sentences end_index (i - 1) stop
        else repetition_loop R sentences end_index (i - 1) stop
      else Inr end_index)"
  by pat_completeness auto
termination
  by (relation "measure (\<lambda>(R, sentences, end_index, i, stop). nat (i - stop))") auto

definition collapse_repetition :: "pyrt \<Rightarrow> pystr list \<Rightarrow> int \<Rightarrow> int \<Rightarrow> py_error + int" where
  "collapse_repetition R sentences start_index end_index =
     (if start_index + 5 < end_index
      then repetition_loop R sentences end_index (end_index - 1) (max (end_index - 15) start_index)
      else Inr end_index)"

subsection \<open>Reconstruction\<close>

text \<open>
  \<^verbatim>\<open>cleaned_sentences = sentences[start_index:end_index]\<close>, the trim of the first kept
  sentence by \<open>start_char_offset\<close>, the join, \<^verbatim>\<open>re.sub(r'\s+', ' ', ...).strip()\<close> and
  \<^verbatim>\<open>re.sub(r'^[,.\s]+', '', ...)\<close>.
\<close>

definition leading_punct :: regex where
  "leading_punct = Seq Bol (Plus (Alt (Cls [(44, 44), (46, 46)]) Space))"

definition trim_first :: "int \<Rightarrow> pystr list \<Rightarrow> pystr list" where
  "trim_first start_char_offset cleaned_sentences =
     (case cleaned_sentences of
        [] \<Rightarrow> []
      | s # rest \<Rightarrow>
          if 0 < start_char_offset then lstrip (py_slice_from s start_char_offset) # rest
          else s # rest)"

definition assemble :: "pyrt \<Rightarrow> pystr list \<Rightarrow> int \<Rightarrow> int \<Rightarrow> int \<Rightarrow> pystr" where
  "assemble R sentences start_index end_index start_char_offset =
     (let cleaned_sentences = trim_first start_char_offset (py_slice sentences start_index end_index);
          cleaned_text = join_sp cleaned_sentences;
          cleaned_text = strip (re_sub R False (Plus Space) [32] cleaned_text)
      in re_sub R False leading_punct [] cleaned_text)"

subsection \<open>The whole function\<close>

text \<open>
  The boundaries that \<open>clean_transcript\<close> computes on the sentences, stage by stage:
  \<open>(start_index, start_char_offset)\<close>, then \<open>end_index\<close> after the chatter scan, after the
  trailing strip, and after the repetition check.
\<close>

definition boundaries :: "pyrt \<Rightarrow> pystr list \<Rightarrow> py_error + (int \<times> int \<times> int)" where
  "boundaries R sentences =
     (case find_start R sentences of
        Inl e \<Rightarrow> Inl e
      | Inr st \<Rightarrow>
         (case chatter_end R sentences of
            Inl e \<Rightarrow> Inl e
          | Inr end0 \<Rightarrow>
             (case tail_loop R sentences (fst st) end0 of
                Inl e \<Rightarrow> Inl e
              | Inr end1 \<Rightarrow>
                 (case collapse_repetition R sentences (fst st) end1 of
                    Inl e \<Rightarrow> Inl e
                  | Inr end2 \<Rightarrow> Inr (fst st, end2, snd st)))))"

definition clean_transcript :: "pyrt \<Rightarrow> pystr \<Rightarrow> py_error + pystr" where
  "clean_transcript R text =
     (let cleaned_text = normalize_text R text;
          sentences = split_sentences R cleaned_text
      in case boundaries R sentences of
           Inl e \<Rightarrow> Inl e
         | Inr b \<Rightarrow> Inr (assemble R sentences (fst b) (fst (snd b)) (snd (snd b))))"

section \<open>Predicates for stating the properties\<close>

text \<open>
  The indices that the chatter scan visits, \<open>max(0, N - 30) + 1 .. N - 1\<close>, restricted to
  those whose trimmed, lower-cased sentence matches some chatter pattern.
\<close>

definition chatter_hits :: "pyrt \<Rightarrow> pystr list \<Rightarrow> int set" where
  "chatter_hits R sentences =
     Set.filter (\<lambda>i. is_chatter R (lower R (strip (sentences ! nat i))))
       {max 0 (int (length sentences) - 30) + 1 .. int (length sentences) - 1}"

text \<open>
  The two tests of the body of the start loop, as predicates of a sentence:
  \<open>pattern_offset\<close> is what the inner loop finds, the \<open>match.start()\<close> of the first
  pattern, in list order, that is found in the lower-cased sentence (\<open>None\<close> when no
  pattern is found); \<open>fallback_test\<close> is the condition of the coherence branch: the
  sentence is coherent and longer than 50 characters, and either it is not followed by two
  more sentences or one of the next two sentences is coherent.
\<close>

definition pattern_offset :: "pyrt \<Rightarrow> pystr \<Rightarrow> nat option" where
  "pattern_offset R sentence = first_start_match R lecture_start_patterns (lower R sentence)"

definition fallback_test :: "pyrt \<Rightarrow> pystr list \<Rightarrow> nat \<Rightarrow> bool" where
  "fallback_test R sentences i =
     (is_coherent_english R (sentences ! i) = Inr True \<and> 50 < length (sentences ! i) \<and>
      (if i + 2 < length sentences
       then is_coherent_english R (sentences ! (i + 1)) = Inr True
            \<or> is_coherent_english R (sentences ! (i + 2)) = Inr True
       else True))"

section \<open>Lemmas about the matcher and the string functions\<close>

declare sub_from.simps [simp del] split_from.simps [simp del] findall_from.simps [simp del]
declare rmatch.simps(11) [simp del]

lemma rmatch_Star_set:
  "c \<in> set (rmatch R ic (Star a) cur) \<longleftrightarrow>
     c = cur \<or> (\<exists>m \<in> set (rmatch R ic a cur). length (snd m) < length (snd cur)
                  \<and> c \<in> set (rmatch R ic (Star a) m))"
  by (subst rmatch.simps(11)) (auto split: if_splits)

lemma rmatch_suffix:
  "c \<in> set (rmatch R ic r cur) \<Longrightarrow> length (snd c) \<le> length (snd cur)"
proof (induction R ic r cur arbitrary: c rule: rmatch.induct)
  case (8 R ic a b cur)
  then obtain m where m: "m \<in> set (rmatch R ic a cur)" "c \<in> set (rmatch R ic b m)"
    by auto
  from "8.IH"(1)[OF m(1)] "8.IH"(2)[OF m(1) m(2)] show ?case by simp
next
  case (11 R ic a cur)
  from "11.prems" have "c = cur \<or> (\<exists>m \<in> set (rmatch R ic a cur). length (snd m) < length (snd cur)
       \<and> c \<in> set (rmatch R ic (Star a) m))"
    by (simp only: rmatch_Star_set [symmetric])
  then show ?case
  proof
    assume "c = cur" then show ?thesis by simp
  next
    assume "\<exists>m \<in> set (rmatch R ic a cur). length (snd m) < length (snd cur)
       \<and> c \<in> set (rmatch R ic (Star a) m)"
    then obtain m where m: "m \<in> set (rmatch R ic a cur)" "length (snd m) < length (snd cur)"
        "c \<in> set (rmatch R ic (Star a) m)" by blast
    from "11.IH"(2)[OF m(1) m(2) m(3)] m(2) show ?thesis by simp
  qed
next
  case (3 R ic c cs p x xs)
  then show ?case by (fastforce split: if_splits)
next
  case (9 R ic a b cur)
  then show ?case by (cases c) auto
next
  case (10 R ic a cur)
  then show ?case by (cases c) auto
next
  case (15 R ic rs cur)
  then show ?case by (auto split: if_splits option.splits)
qed (simp_all split: if_splits)

lemma consuming_rmatch:
  "consuming r \<Longrightarrow> c \<in> set (rmatch R ic r cur) \<Longrightarrow> length (snd c) < length (snd cur)"
proof (induction R ic r cur arbitrary: c rule: rmatch.induct)
  case (3 R ic c' cs p x xs)
  then have "c \<in> set (rmatch R ic (Lit cs) (Some x, xs))" by (simp split: if_splits)
  from rmatch_suffix[OF this] show ?case by simp
next
  case (8 R ic a b cur)
  from "8.prems"(2) obtain m where m: "m \<in> set (rmatch R ic a cur)" "c \<in> set (rmatch R ic b m)"
    by auto
  show ?case
  proof (cases "consuming a")
    case True
    from "8.IH"(1)[OF True m(1)] rmatch_suffix[OF m(2)] show ?thesis by simp
  next
    case False
    with "8.prems"(1) have "consuming b" by simp
    from "8.IH"(2)[OF m(1) this m(2)] rmatch_suffix[OF m(1)] show ?thesis by simp
  qed
next
  case (9 R ic a b cur)
  then show ?case by (cases c) auto
qed (auto split: if_splits)

text \<open>
  The patterns that are passed to \<open>re.sub\<close>, \<open>re.split\<close> and \<open>re.findall\<close> match at least
  one character.
\<close>

lemma patterns_consuming:
  "list_all consuming hallucination_patterns" "consuming sentence_sep" "consuming word_re"
  "consuming (Plus Space)" "consuming leading_punct"
  by (simp_all add: hallucination_patterns_def accent_pattern_def sentence_sep_def word_re_def
      leading_punct_def Plus_def L_def asc_def)

lemma rmatch_Plus_Space_consumes:
  assumes a: "c \<in> set (rmatch R ic (Plus Space) cur)"
  shows "length (snd c) < length (snd cur)"
proof -
  obtain p xs where cur: "cur = (p, xs)" by (cases cur)
  from a obtain m where m: "m \<in> set (rmatch R ic Space cur)" "c \<in> set (rmatch R ic (Star Space) m)"
    by (auto simp: Plus_def)
  from m(1) have "length (snd m) < length (snd cur)"
    unfolding cur by (cases xs) (auto split: if_splits)
  with rmatch_suffix[OF m(2)] show ?thesis by simp
qed

lemma sub_from_length:
  assumes "\<And>cur c. c \<in> set (rmatch R ic r cur) \<Longrightarrow> length (snd c) + length repl \<le> length (snd cur)"
  shows "length (sub_from R ic r repl cur) \<le> length (snd cur)"
  using assms
proof (induction R ic r repl cur rule: sub_from.induct)
  case (1 R ic r repl p xs)
  note eq = sub_from.simps[of R ic r repl p xs]
  show ?case
  proof (cases "rmatch R ic r (p, xs)")
    case Nil
    show ?thesis
    proof (cases xs)
      case Nil' : Nil
      show ?thesis unfolding eq using Nil Nil' by simp
    next
      case (Cons x xs')
      show ?thesis unfolding eq using 1(1)[OF Nil Cons "1.prems"] Nil Cons by simp
    qed
  next
    case (Cons c cs)
    have "c \<in> set (rmatch R ic r (p, xs))" using Cons by simp
    from "1.prems"[OF this] have b: "length (snd c) + length repl \<le> length xs" by simp
    show ?thesis
    proof (cases "length (snd c) < length xs")
      case True
      show ?thesis unfolding eq using 1(2)[OF Cons True "1.prems"] b Cons True by simp
    next
      case False
      with b have "length repl = 0" by arith
      then have r0: "repl = []" by simp
      show ?thesis
      proof (cases xs)
        case Nil
        show ?thesis unfolding eq using False Cons r0 Nil by simp
      next
        case Cons' : (Cons x xs')
        show ?thesis unfolding eq using 1(3)[OF Cons False Cons' "1.prems"] False Cons r0 Cons' by simp
      qed
    qed
  qed
qed

lemma length_join_sp: "length (join_sp xs) = sum_list (map length xs) + (length xs - 1)"
  by (induction xs rule: join_sp.induct) auto

lemma sum_lengths_take_drop:
  "sum_list (map length (take n xs)) + sum_list (map length (drop n xs)) = sum_list (map length xs)"
proof -
  have "sum_list (map length (take n xs @ drop n xs)) = sum_list (map length xs)" by simp
  then show ?thesis by (simp only: map_append sum_list_append)
qed

lemma join_sp_take: "length (join_sp (take n xs)) \<le> length (join_sp xs)"
  using sum_lengths_take_drop[of n xs] by (simp add: length_join_sp)

lemma join_sp_drop: "length (join_sp (drop n xs)) \<le> length (join_sp xs)"
  using sum_lengths_take_drop[of n xs] by (simp add: length_join_sp)

lemma join_sp_slice: "length (join_sp (py_slice xs lo hi)) \<le> length (join_sp xs)"
  unfolding py_slice_def Let_def
  by (rule order_trans[OF join_sp_take join_sp_drop])

lemma length_lstrip: "length (lstrip s) \<le> length s"
  by (simp add: lstrip_def length_dropWhile_le)

lemma length_strip: "length (strip s) \<le> length s"
proof -
  have "length (dropWhile isspace (rev (dropWhile isspace s))) \<le> length (rev (dropWhile isspace s))"
    by (rule length_dropWhile_le)
  also have "\<dots> \<le> length s" by (simp add: length_dropWhile_le)
  finally show ?thesis by (simp add: strip_def)
qed

lemma join_sp_trim_first: "length (join_sp (trim_first k xs)) \<le> length (join_sp xs)"
proof (cases xs)
  case Nil
  then show ?thesis by (simp add: trim_first_def)
next
  case (Cons s rest)
  have "length (lstrip (py_slice_from s k)) \<le> length s"
    using length_lstrip[of "py_slice_from s k"] by (simp add: py_slice_from_def)
  then show ?thesis using Cons by (simp add: trim_first_def length_join_sp)
qed

lemma split_from_nonempty: "split_from R r piece cur \<noteq> []"
proof (induction R r piece cur rule: split_from.induct)
  case (1 R r piece p xs)
  show ?case
  proof (cases "rmatch R False r (p, xs)")
    case Nil
    show ?thesis
    proof (cases xs)
      case Nil' : Nil
      show ?thesis unfolding split_from.simps[of R r piece p xs] using Nil Nil' by simp
    next
      case (Cons x xs')
      show ?thesis unfolding split_from.simps[of R r piece p xs]
        using 1(1)[OF Nil Cons] Nil Cons by simp
    qed
  next
    case (Cons c cs)
    show ?thesis unfolding split_from.simps[of R r piece p xs] using Cons by simp
  qed
qed

lemma join_sp_Cons: "rest \<noteq> [] \<Longrightarrow> length (join_sp (x # rest)) = length x + 1 + length (join_sp rest)"
  by (cases rest) auto

lemma split_from_join:
  assumes "\<And>cur c. c \<in> set (rmatch R False r cur) \<Longrightarrow> length (snd c) < length (snd cur)"
  shows "length (join_sp (split_from R r piece cur)) \<le> length piece + length (snd cur)"
  using assms
proof (induction R r piece cur rule: split_from.induct)
  case (1 R r piece p xs)
  note eq = split_from.simps[of R r piece p xs]
  show ?case
  proof (cases "rmatch R False r (p, xs)")
    case Nil
    show ?thesis
    proof (cases xs)
      case Nil' : Nil
      show ?thesis unfolding eq using Nil Nil' by simp
    next
      case (Cons x xs')
      show ?thesis unfolding eq using 1(1)[OF Nil Cons "1.prems"] Nil Cons by simp
    qed
  next
    case (Cons c cs)
    have "c \<in> set (rmatch R False r (p, xs))" using Cons by simp
    from "1.prems"[OF this] have b: "length (snd c) < length xs" by simp
    have "length (join_sp (piece # split_from R r [] c))
            = length piece + 1 + length (join_sp (split_from R r [] c))"
      by (rule join_sp_Cons[OF split_from_nonempty])
    also have "\<dots> \<le> length piece + 1 + length (snd c)"
      using 1(2)[OF Cons b "1.prems"] by simp
    also have "\<dots> \<le> length piece + length xs" using b by simp
    finally show ?thesis unfolding eq using Cons b by simp
  qed
qed

lemma sentence_sep_consumes:
  assumes "c \<in> set (rmatch R ic sentence_sep cur)"
  shows "length (snd c) < length (snd cur)"
proof -
  from assms obtain m where m: "m \<in> set (rmatch R ic (Behind [(46, 46), (33, 33), (63, 63)]) cur)"
      "c \<in> set (rmatch R ic (Plus Space) m)"
    by (auto simp: sentence_sep_def)
  from m(1) have "m = cur" by (auto split: option.splits if_splits)
  with rmatch_Plus_Space_consumes[OF m(2)] show ?thesis by simp
qed

lemma split_sentences_join: "length (join_sp (split_sentences R t)) \<le> length t"
  using split_from_join[of R sentence_sep "[]" "(None, t)", OF sentence_sep_consumes]
  by (simp add: split_sentences_def re_split_def)

lemma re_sub_delete_length: "length (re_sub R ic r [] s) \<le> length s"
  using sub_from_length[of R ic r "[]" "(None, s)"] rmatch_suffix
  by (simp add: re_sub_def)

lemma re_sub_space_length: "length (re_sub R ic (Plus Space) [32] s) \<le> length s"
proof -
  have "\<And>cur c. c \<in> set (rmatch R ic (Plus Space) cur) \<Longrightarrow>
          length (snd c) + length [32::int] \<le> length (snd cur)"
    using rmatch_Plus_Space_consumes by fastforce
  from sub_from_length[of R ic "Plus Space" "[32]" "(None, s)", OF this]
  show ?thesis by (simp add: re_sub_def)
qed

lemma assemble_length: "length (assemble R ss a b off) \<le> length (join_sp ss)"
proof -
  let ?j = "join_sp (trim_first off (py_slice ss a b))"
  have "length (assemble R ss a b off) \<le> length (strip (re_sub R False (Plus Space) [32] ?j))"
    by (simp add: assemble_def Let_def re_sub_delete_length)
  also have "\<dots> \<le> length (re_sub R False (Plus Space) [32] ?j)" by (rule length_strip)
  also have "\<dots> \<le> length ?j" by (rule re_sub_space_length)
  also have "\<dots> \<le> length (join_sp (py_slice ss a b))" by (rule join_sp_trim_first)
  also have "\<dots> \<le> length (join_sp ss)" by (rule join_sp_slice)
  finally show ?thesis .
qed

lemma foldl_sub_length:
  "length (foldl (\<lambda>t q. re_sub R ic q [] t) s qs) \<le> length s"
proof (induction qs arbitrary: s)
  case Nil
  then show ?case by simp
next
  case (Cons q qs)
  have "length (foldl (\<lambda>t q. re_sub R ic q [] t) (re_sub R ic q [] s) qs)
          \<le> length (re_sub R ic q [] s)" by (rule Cons.IH)
  also have "\<dots> \<le> length s" by (rule re_sub_delete_length)
  finally show ?case by simp
qed

lemma normalize_text_length: "length (normalize_text R text) \<le> length text"
  by (simp add: normalize_text_def foldl_sub_length)

section \<open>Lemmas about the loops of the cleaner\<close>

declare chatter_loop.simps [simp del] tail_loop.simps [simp del] repetition_loop.simps [simp del]

lemma is_coherent_english_total: "\<exists>b. is_coherent_english R s = Inr b"
  by (auto simp add: is_coherent_english_def truediv_def Let_def)

lemma py_index_in_range: "0 \<le> i \<Longrightarrow> i < int (length xs) \<Longrightarrow> py_index xs i = Inr (xs ! nat i)"
  by (simp add: py_index_def)

lemma start_loop_total:
  "0 \<le> i \<Longrightarrow> i + int (length rest) = int (length ss) \<Longrightarrow> 0 \<le> fst st \<Longrightarrow>
   \<exists>st'. start_loop R ss i rest st = Inr st' \<and> 0 \<le> fst st'"
proof (induction rest arbitrary: i st)
  case Nil
  then show ?case by simp
next
  case (Cons s rest)
  define st1 where "st1 = (case first_start_match R lecture_start_patterns (lower R s) of
                   Some k \<Rightarrow> (i, int k) | None \<Rightarrow> st)"
  have st1: "0 \<le> fst st1" using Cons.prems by (simp add: st1_def split: option.splits)
  obtain c where c: "is_coherent_english R s = Inr c"
    using is_coherent_english_total by blast
  have "i + 1 + int (length rest) = int (length ss)" using Cons.prems by simp
  with Cons.IH[of "i + 1" st1] Cons.prems st1
  obtain st2 where st2: "start_loop R ss (i + 1) rest st1 = Inr st2" "0 \<le> fst st2"
    by auto
  show ?case
  proof (cases "0 < snd st1")
    case True
    then show ?thesis using st1 by (simp add: Let_def st1_def[symmetric])
  next
    case off: False
    show ?thesis
    proof (cases "c \<and> 50 < length s")
      case False
      then show ?thesis using off c st2 by (cases st2) (auto simp add: Let_def st1_def[symmetric])
    next
      case fb: True
      show ?thesis
      proof (cases "i + 2 < int (length ss)")
        case False
        then show ?thesis using off c fb Cons.prems by (simp add: Let_def st1_def[symmetric])
      next
        case True
        obtain c1 where c1: "is_coherent_english R (ss ! nat (i + 1)) = Inr c1"
          using is_coherent_english_total by blast
        obtain c2 where c2: "is_coherent_english R (ss ! nat (i + 2)) = Inr c2"
          using is_coherent_english_total by blast
        have i1: "py_index ss (i + 1) = Inr (ss ! nat (i + 1))"
          using True Cons.prems by (intro py_index_in_range) auto
        have i2: "py_index ss (i + 2) = Inr (ss ! nat (i + 2))"
          using True Cons.prems by (intro py_index_in_range) auto
        show ?thesis using off c fb True c1 c2 i1 i2 st2 Cons.prems
          by (cases st2) (auto simp add: Let_def st1_def[symmetric])
      qed
    qed
  qed
qed

lemma find_start_total: "\<exists>st. find_start R ss = Inr st \<and> 0 \<le> fst st"
  unfolding find_start_def by (rule start_loop_total) auto

lemma upto_filter_snoc:
  "stop < i \<Longrightarrow> filter P [stop + 1..i] = filter P [stop + 1..i - 1] @ (if P i then [i] else [])"
  by (simp add: upto_rec2[of "stop + 1" i])

lemma chatter_loop_spec:
  "0 \<le> stop \<Longrightarrow> i < int (length ss) \<Longrightarrow>
   chatter_loop R ss i stop c0 =
     Inr (case filter (\<lambda>j. is_chatter R (lower R (strip (ss ! nat j)))) [stop + 1..i] of
            [] \<Rightarrow> c0 | k # _ \<Rightarrow> Some k)"
proof (induction R ss i stop c0 rule: chatter_loop.induct)
  case (1 R ss i stop c0)
  let ?P = "\<lambda>j. is_chatter R (lower R (strip (ss ! nat j)))"
  show ?case
  proof (cases "stop < i")
    case False
    then show ?thesis by (subst chatter_loop.simps) simp
  next
    case True
    have idx: "py_index ss i = Inr (ss ! nat i)"
      using True 1(2,3) by (intro py_index_in_range) auto
    have IH: "chatter_loop R ss (i - 1) stop (if ?P i then Some i else c0) =
       Inr (case filter ?P [stop + 1..i - 1] of [] \<Rightarrow> (if ?P i then Some i else c0) | k # _ \<Rightarrow> Some k)"
      using 1(1)[OF True idx] 1(2,3) by simp
    show ?thesis
      apply (subst chatter_loop.simps)
      apply (simp only: True if_True idx sum.case IH upto_filter_snoc[OF True])
      apply (cases "filter ?P [stop + 1..i - 1]")
       apply simp_all
      done
  qed
qed

lemma tail_loop_total:
  "0 \<le> start \<Longrightarrow> e \<le> int (length ss) \<Longrightarrow>
   \<exists>e'. tail_loop R ss start e = Inr e' \<and> e' \<le> e \<and> (e \<le> start \<longrightarrow> e' = e) \<and> (start < e \<longrightarrow> start \<le> e')"
proof (induction R ss start e rule: tail_loop.induct)
  case (1 R ss start e)
  show ?case
  proof (cases "start < e")
    case False
    then show ?thesis by (subst tail_loop.simps) simp
  next
    case True
    have idx: "py_index ss (e - 1) = Inr (ss ! nat (e - 1))"
      using True 1(2,3) by (intro py_index_in_range) auto
    show ?thesis
    proof (cases "droppable (lower R (strip (ss ! nat (e - 1))))")
      case False
      then show ?thesis using True idx by (subst tail_loop.simps) simp
    next
      case d: True
      from 1(1)[OF True idx d] 1(2,3)
      obtain e' where e': "tail_loop R ss start (e - 1) = Inr e'" "e' \<le> e - 1"
          "e - 1 \<le> start \<longrightarrow> e' = e - 1" "start < e - 1 \<longrightarrow> start \<le> e'"
        by auto
      show ?thesis using True idx d e' by (subst tail_loop.simps) auto
    qed
  qed
qed

lemma tail_loop_all_droppable:
  "\<forall>s\<in>set ss. droppable (lower R (strip s)) \<Longrightarrow> 0 \<le> start \<Longrightarrow> e \<le> int (length ss) \<Longrightarrow>
   tail_loop R ss start e = Inr (min start e)"
proof (induction R ss start e rule: tail_loop.induct)
  case (1 R ss start e)
  show ?case
  proof (cases "start < e")
    case False
    then show ?thesis by (subst tail_loop.simps) simp
  next
    case True
    have idx: "py_index ss (e - 1) = Inr (ss ! nat (e - 1))"
      using True 1(3,4) by (intro py_index_in_range) auto
    have "ss ! nat (e - 1) \<in> set ss" using True 1(3,4) by (intro nth_mem) auto
    with 1(2) have d: "droppable (lower R (strip (ss ! nat (e - 1))))" by blast
    from 1(1)[OF True idx d 1(2)] 1(3,4)
    have "tail_loop R ss start (e - 1) = Inr (min start (e - 1))" by simp
    then show ?thesis using True idx d by (subst tail_loop.simps) simp
  qed
qed

lemma counter_nonempty: "xs \<noteq> [] \<Longrightarrow> counter xs \<noteq> []"
  by (simp add: counter_def)

lemma most_common1_total: "xs \<noteq> [] \<Longrightarrow> \<exists>mc. most_common1 xs = Inr mc"
  using counter_nonempty[of xs] by (simp add: most_common1_def split: list.splits)

lemma repetition_loop_total: "\<exists>e'. repetition_loop R ss e i stop = Inr e'"
proof (induction R ss e i stop rule: repetition_loop.induct)
  case (1 R ss e i stop)
  let ?rem = "map (\<lambda>s. lower R (strip s)) (py_slice ss i e)"
  show ?case
  proof (cases "stop < i")
    case False
    then show ?thesis by (subst repetition_loop.simps) simp
  next
    case True
    show ?thesis
    proof (cases "3 \<le> length ?rem")
      case False
      with 1(2)[OF True refl False] True show ?thesis
        by (subst repetition_loop.simps) (simp add: Let_def)
    next
      case l3: True
      then have "?rem \<noteq> []" by auto
      then obtain mc where mc: "most_common1 ?rem = Inr mc"
        using most_common1_total by blast
      show ?thesis
      proof (cases "of_nat (length ?rem) * (3 / 5 :: rat) \<le> of_nat (snd mc)")
        case True
        with \<open>stop < i\<close> l3 mc show ?thesis
          by (subst repetition_loop.simps) (simp add: Let_def)
      next
        case False
        with 1(1)[OF \<open>stop < i\<close> refl l3 mc False] \<open>stop < i\<close> l3 mc show ?thesis
          by (subst repetition_loop.simps) (simp add: Let_def)
      qed
    qed
  qed
qed

lemma collapse_repetition_total: "\<exists>e'. collapse_repetition R ss start e = Inr e'"
  using repetition_loop_total by (simp add: collapse_repetition_def)

lemma find_chatter_start_spec:
  "find_chatter_start R ss =
     Inr (case filter (\<lambda>j. is_chatter R (lower R (strip (ss ! nat j))))
                 [max 0 (int (length ss) - 30) + 1..int (length ss) - 1] of
            [] \<Rightarrow> None | k # _ \<Rightarrow> Some k)"
  unfolding find_chatter_start_def by (rule chatter_loop_spec) auto

lemma sorted_filter_head_Min:
  fixes xs :: "int list"
  assumes "sorted xs" "filter P xs = k # ks"
  shows "Min (Set.filter P (set xs)) = k"
proof -
  have s: "sorted (k # ks)" using assms sorted_filter[of "\<lambda>x. x" xs P] by simp
  have e: "Set.filter P (set xs) = set (k # ks)" using assms(2)[symmetric] by auto
  show ?thesis unfolding e using s by (auto intro!: Min_eqI)
qed

lemma chatter_end_total: "\<exists>e. chatter_end R ss = Inr e \<and> 0 \<le> e \<and> e \<le> int (length ss)"
proof -
  let ?P = "\<lambda>j. is_chatter R (lower R (strip (ss ! nat j)))"
  let ?w = "[max 0 (int (length ss) - 30) + 1..int (length ss) - 1]"
  show ?thesis
  proof (cases "filter ?P ?w")
    case Nil
    then show ?thesis by (simp add: chatter_end_def find_chatter_start_spec)
  next
    case (Cons k ks)
    then have "k \<in> set (filter ?P ?w)" by simp
    then have "0 < k \<and> k \<le> int (length ss) - 1" by auto
    then show ?thesis using Cons by (simp add: chatter_end_def find_chatter_start_spec)
  qed
qed

lemma boundaries_total: "\<exists>b. boundaries R ss = Inr b"
proof -
  obtain st where st: "find_start R ss = Inr st" "0 \<le> fst st"
    using find_start_total by blast
  obtain e0 where e0: "chatter_end R ss = Inr e0" "0 \<le> e0" "e0 \<le> int (length ss)"
    using chatter_end_total by blast
  obtain e1 where e1: "tail_loop R ss (fst st) e0 = Inr e1"
    using tail_loop_total[OF st(2) e0(3)] by blast
  obtain e2 where e2: "collapse_repetition R ss (fst st) e1 = Inr e2"
    using collapse_repetition_total by blast
  show ?thesis using st e0 e1 e2 by (simp add: boundaries_def)
qed

lemma clean_transcript_assembled:
  "\<exists>a b off. clean_transcript R t =
      Inr (assemble R (split_sentences R (normalize_text R t)) a b off)"
proof -
  obtain b where "boundaries R (split_sentences R (normalize_text R t)) = Inr b"
    using boundaries_total by blast
  then show ?thesis by (auto simp: clean_transcript_def Let_def)
qed

lemma clean_transcript_bound:
  "\<exists>out. clean_transcript R t = Inr out \<and> length out \<le> length (normalize_text R t)"
proof -
  obtain a b off where c: "clean_transcript R t =
      Inr (assemble R (split_sentences R (normalize_text R t)) a b off)"
    using clean_transcript_assembled by blast
  have "length (assemble R (split_sentences R (normalize_text R t)) a b off)
          \<le> length (join_sp (split_sentences R (normalize_text R t)))"
    by (rule assemble_length)
  also have "\<dots> \<le> length (normalize_text R t)" by (rule split_sentences_join)
  finally show ?thesis using c by simp
qed

lemma empty_slice: "0 \<le> b \<Longrightarrow> b \<le> a \<Longrightarrow> py_slice xs a b = []"
  by (auto simp add: py_slice_def clamp_bound_def Let_def)

lemma assemble_empty: "0 \<le> b \<Longrightarrow> b \<le> a \<Longrightarrow> assemble R ss a b off = []"
  by (simp add: assemble_def empty_slice trim_first_def strip_def re_sub_def
      sub_from.simps[of _ _ _ _ _ "[]"] Plus_def leading_punct_def)

lemma is_coherent_english_cases:
  "is_coherent_english R s = Inr True \<or> is_coherent_english R s = Inr False"
  using is_coherent_english_total[of R s] by auto

lemma start_loop_first_candidate:
  assumes "rest = drop n ss" "k < length rest" "snd st = 0"
    and "\<forall>j<k. pattern_offset R (ss ! (n + j)) = None \<and> \<not> fallback_test R ss (n + j)"
    and "(pattern_offset R (ss ! (n + k)) = None \<and> fallback_test R ss (n + k))
         \<or> (\<exists>m. pattern_offset R (ss ! (n + k)) = Some m \<and> 0 < m)"
  shows "start_loop R ss (int n) rest st =
           Inr (int (n + k), case pattern_offset R (ss ! (n + k)) of None \<Rightarrow> 0 | Some m \<Rightarrow> int m)"
  using assms
proof (induction rest arbitrary: n k st)
  case Nil
  then show ?case by simp
next
  case (Cons s rest)
  have s: "ss ! n = s" using Cons.prems(1) by (metis nth_via_drop)
  have rest: "rest = drop (Suc n) ss" using Cons.prems(1) by (metis drop_Suc list.sel(3) tl_drop)
  define st1 where "st1 = (case first_start_match R lecture_start_patterns (lower R s) of
                   Some m \<Rightarrow> (int n, int m) | None \<Rightarrow> st)"
  have unfold: "start_loop R ss (int n) (s # rest) st =
      (if 0 < snd st1 then Inr st1
       else case is_coherent_english R s of Inl e \<Rightarrow> Inl e
          | Inr coh \<Rightarrow>
             if coh \<and> 50 < length s then
               if int n + 2 < int (length ss) then
                 case py_index ss (int n + 1) of Inl e \<Rightarrow> Inl e
                 | Inr s1 \<Rightarrow> (case is_coherent_english R s1 of Inl e \<Rightarrow> Inl e
                    | Inr c1 \<Rightarrow> if c1 then Inr (int n, snd st1)
                       else case py_index ss (int n + 2) of Inl e \<Rightarrow> Inl e
                         | Inr s2 \<Rightarrow> (case is_coherent_english R s2 of Inl e \<Rightarrow> Inl e
                            | Inr c2 \<Rightarrow> if c2 then Inr (int n, snd st1)
                               else start_loop R ss (int n + 1) rest st1))
               else Inr (int n, snd st1)
             else start_loop R ss (int n + 1) rest st1)"
    unfolding st1_def by (simp add: Let_def)
  have i1: "n + 2 < length ss \<Longrightarrow> py_index ss (int n + 1) = Inr (ss ! (n + 1))"
    by (simp add: py_index_def nat_add_distrib)
  have i2: "n + 2 < length ss \<Longrightarrow> py_index ss (int n + 2) = Inr (ss ! (n + 2))"
    by (simp add: py_index_def nat_add_distrib)
  show ?case
  proof (cases k)
    case 0
    from Cons.prems(5) 0 have cand: "(pattern_offset R s = None \<and> fallback_test R ss n)
         \<or> (\<exists>m. pattern_offset R s = Some m \<and> 0 < m)"
      by (simp add: s)
    then show ?thesis
    proof
      assume "\<exists>m. pattern_offset R s = Some m \<and> 0 < m"
      then obtain m where m: "pattern_offset R s = Some m" "0 < m" by blast
      then have "st1 = (int n, int m)" by (simp add: st1_def pattern_offset_def)
      then show ?thesis unfolding unfold using m 0 s by simp
    next
      assume a: "pattern_offset R s = None \<and> fallback_test R ss n"
      then have z: "snd st1 = 0" using Cons.prems(3) by (simp add: st1_def pattern_offset_def)
      from a have fb: "fallback_test R ss n" by simp
      show ?thesis
      proof (cases "n + 2 < length ss")
        case True
        then have lt: "int n + 2 < int (length ss)" by simp
        from fb True have c: "is_coherent_english R s = Inr True" "50 < length s"
            "is_coherent_english R (ss ! (n + 1)) = Inr True
             \<or> is_coherent_english R (ss ! (n + 2)) = Inr True"
          by (simp_all add: fallback_test_def s)
        show ?thesis unfolding unfold
          using is_coherent_english_cases[of R "ss ! (n + 1)"] c z 0 s a i1[OF True] i2[OF True] lt
          by auto
      next
        case False
        then have lt: "\<not> int n + 2 < int (length ss)" by simp
        from fb have c: "is_coherent_english R s = Inr True" "50 < length s"
          by (simp_all add: fallback_test_def s)
        show ?thesis unfolding unfold using c z 0 s a lt by simp
      qed
    qed
  next
    case (Suc k')
    from Cons.prems(4) Suc have no: "pattern_offset R s = None" "\<not> fallback_test R ss n"
      using s by force+
    then have st1: "st1 = st" by (simp add: st1_def pattern_offset_def)
    have z: "snd st1 = 0" "\<not> 0 < snd st1" using st1 Cons.prems(3) by simp_all
    have k': "k' < length rest" using Cons.prems(2) Suc by simp
    have a4: "\<forall>j<k'. pattern_offset R (ss ! (Suc n + j)) = None \<and> \<not> fallback_test R ss (Suc n + j)"
      using Cons.prems(4) Suc by (metis Suc_less_eq add_Suc_shift)
    have a5: "(pattern_offset R (ss ! (Suc n + k')) = None \<and> fallback_test R ss (Suc n + k'))
         \<or> (\<exists>m. pattern_offset R (ss ! (Suc n + k')) = Some m \<and> 0 < m)"
      using Cons.prems(5) Suc by simp
    have IH: "start_loop R ss (int n + 1) rest st1 =
        Inr (int (n + k), case pattern_offset R (ss ! (n + k)) of None \<Rightarrow> 0 | Some m \<Rightarrow> int m)"
      using Cons.IH[OF rest k' z(1) a4 a5] Suc by (simp add: add.commute)
    show ?thesis
    proof (cases "is_coherent_english R s = Inr True \<and> 50 < length s")
      case False
      then show ?thesis unfolding unfold using is_coherent_english_cases[of R s] z IH
        by auto
    next
      case True
      with no(2) have nn: "n + 2 < length ss" "is_coherent_english R (ss ! (n + 1)) \<noteq> Inr True"
          "is_coherent_english R (ss ! (n + 2)) \<noteq> Inr True"
        by (auto simp add: fallback_test_def s split: if_splits)
      then have f: "is_coherent_english R (ss ! (n + 1)) = Inr False"
          "is_coherent_english R (ss ! (n + 2)) = Inr False"
        using is_coherent_english_cases[of R "ss ! (n + 1)"]
          is_coherent_english_cases[of R "ss ! (n + 2)"] by auto
      have lt: "int n + 2 < int (length ss)" using nn(1) by simp
      show ?thesis unfolding unfold using True z IH f lt i1[OF nn(1)] i2[OF nn(1)]
        by simp
    qed
  qed
qed

section \<open>The claims of the specification\<close>

subsection \<open>C1: the cleaner is total\<close>

text \<open>
  C1. For every input string, and whatever the Unicode tables of the runtime are,
  \<open>clean_transcript\<close> returns a string: no index into the sentence list, no
  \<open>most_common(1)[0]\<close> and no division raises. In the model every such operation returns
  an error value when it is out of range, and the result is never an error.
\<close>

theorem clean_transcript_total: "\<exists>out. clean_transcript R t = Inr out"
proof -
  obtain a b off where "clean_transcript R t =
      Inr (assemble R (split_sentences R (normalize_text R t)) a b off)"
    using clean_transcript_assembled by blast
  then show ?thesis by blast
qed

subsection \<open>C2: the output is not longer than the normalized text\<close>

text \<open>
  C2. For every input, the string that \<open>clean_transcript\<close> returns is at most as long as
  the normalized text, that is the input after the deletions of the hallucination
  patterns.
\<close>

theorem output_not_longer_than_normalized:
  "\<exists>out. clean_transcript R t = Inr out \<and> length out \<le> length (normalize_text R t)"
proof -
  obtain a b off where c: "clean_transcript R t =
      Inr (assemble R (split_sentences R (normalize_text R t)) a b off)"
    using clean_transcript_assembled by blast
  have "length (assemble R (split_sentences R (normalize_text R t)) a b off)
          \<le> length (join_sp (split_sentences R (normalize_text R t)))"
    by (rule assemble_length)
  also have "\<dots> \<le> length (normalize_text R t)" by (rule split_sentences_join)
  finally show ?thesis using c by simp
qed

subsection \<open>C3: the worked example\<close>

text \<open>
  C3. The worked example of the specification: the CJK run is removed by the first pass,
  the pattern \<open>today\<close> is found at offset 27 of the first sentence, whose first 27
  characters are trimmed, and the three trailing \<open>Thank you.\<close> are dropped by the
  trailing strip. The result is exactly the text that the specification gives.
\<close>

theorem worked_example:
  "clean_transcript latin1_rt
     ([22823, 23478, 22909] @ asc '' Hello everyone, welcome to today's lecture on graphs and trees, this is going to be a great class. We will cover traversal algorithms. Thank you. Thank you. Thank you.'')
   = Inr (asc ''today's lecture on graphs and trees, this is going to be a great class. We will cover traversal algorithms.'')"
  by code_simp

subsection \<open>C4: the range invariant\<close>

text \<open>
  C4. The claim is that \<open>0 \<le> start_index \<le> end_index \<le> N\<close> holds after every update and
  that the chatter scan never goes before \<open>start_index\<close>. The chatter scan runs over the
  last sentences whatever \<open>start_index\<close> is. On \<^verbatim>\<open>x. Okay. We say hello everyone.\<close> the
  start is found in sentence 2 (offset 7), the chatter scan finds \<open>Okay.\<close> at index 1 and
  sets \<open>end_index = 1\<close>, below \<open>start_index\<close>; the kept range is empty and the whole
  transcript is lost.
\<close>

theorem chatter_end_below_start:
  "find_start latin1_rt (map asc [''x.'', ''Okay.'', ''We say hello everyone.'']) = Inr (2, 7)
   \<and> chatter_end latin1_rt (map asc [''x.'', ''Okay.'', ''We say hello everyone.'']) = Inr 1
   \<and> split_sentences latin1_rt (normalize_text latin1_rt (asc ''x. Okay. We say hello everyone.''))
       = map asc [''x.'', ''Okay.'', ''We say hello everyone.'']
   \<and> clean_transcript latin1_rt (asc ''x. Okay. We say hello everyone.'') = Inr []"
  by code_simp

subsection \<open>C5: the first pattern match\<close>

text \<open>
  C5. The claim is that the first sentence with a pattern match fixes \<open>start_index\<close> and
  \<open>start_char_offset\<close>, also when the match starts at position 0. A match at offset 0 does
  not stop the scan: the test after the inner loop is \<open>start_char_offset > 0\<close>. On
  \<^verbatim>\<open>Today is fun. Say hello everyone.\<close> sentence 0 matches \<open>today\<close> at offset 0, the scan
  goes on, and sentence 1 (\<open>hello everyone\<close> at offset 4) replaces both values; sentence 0
  is cut from the output.
\<close>

theorem match_at_offset_zero_overridden:
  "first_start_match latin1_rt lecture_start_patterns (lower latin1_rt (asc ''Today is fun.'')) = Some 0
   \<and> find_start latin1_rt (map asc [''Today is fun.'', ''Say hello everyone.'']) = Inr (1, 4)
   \<and> split_sentences latin1_rt (normalize_text latin1_rt (asc ''Today is fun. Say hello everyone.''))
       = map asc [''Today is fun.'', ''Say hello everyone.'']
   \<and> clean_transcript latin1_rt (asc ''Today is fun. Say hello everyone.'')
       = Inr (asc ''hello everyone.'')"
  by code_simp

subsection \<open>C6: the coherence fallback\<close>

text \<open>
  C6, as stated, fails: the fallback is not held back until the whole sequence has been
  searched for patterns. In the transcript below no pattern is found in sentence 0, the
  fallback test holds there, and the scan stops with \<open>(start_index, start_char_offset) =
  (0, 0)\<close>, although sentence 3 matches \<open>welcome to\<close> at offset 5; the transcript is
  returned unchanged.
\<close>

theorem fallback_preempts_later_pattern:
  "first_start_match latin1_rt lecture_start_patterns
       (lower latin1_rt (asc ''We are using the local copy of the data on a laptop for this.'')) = None
   \<and> first_start_match latin1_rt lecture_start_patterns
       (lower latin1_rt (asc ''Okay welcome to class.'')) = Some 5
   \<and> split_sentences latin1_rt (normalize_text latin1_rt
         (asc ''We are using the local copy of the data on a laptop for this. It is on the laptop. It is on the laptop. Okay welcome to class.''))
       = map asc [''We are using the local copy of the data on a laptop for this.'', ''It is on the laptop.'', ''It is on the laptop.'', ''Okay welcome to class.'']
   \<and> find_start latin1_rt
         (map asc [''We are using the local copy of the data on a laptop for this.'', ''It is on the laptop.'', ''It is on the laptop.'', ''Okay welcome to class.'']) = Inr (0, 0)
   \<and> clean_transcript latin1_rt
         (asc ''We are using the local copy of the data on a laptop for this. It is on the laptop. It is on the laptop. Okay welcome to class.'')
       = Inr (asc ''We are using the local copy of the data on a laptop for this. It is on the laptop. It is on the laptop. Okay welcome to class.'')"
  by code_simp

text \<open>
  C6, amended. The fallback is tested sentence by sentence in the same scan, after the
  patterns of that sentence, and not after the whole sequence has been searched. Let \<open>i\<close>
  be the first sentence in which a pattern is found or for which the fallback test holds
  (the sentence is coherent, longer than 50 characters, and either is not followed by two
  more sentences or has a coherent sentence among the next two). If no pattern is found
  in sentence \<open>i\<close>, the fallback decides: \<open>start_index = i\<close> and \<open>start_char_offset = 0\<close>,
  whatever patterns later sentences contain. If a pattern is found in sentence \<open>i\<close> and the
  \<open>match.start()\<close> of the first pattern, in list order, that is found there is positive,
  that match decides: \<open>start_index = i\<close> and \<open>start_char_offset\<close> is that position.
  Nothing is said here about a first match that starts at position 0 (that is C5).
\<close>

theorem start_decided_at_first_candidate:
  assumes "i < length ss"
    and "\<forall>j<i. pattern_offset R (ss ! j) = None \<and> \<not> fallback_test R ss j"
    and "(pattern_offset R (ss ! i) = None \<and> fallback_test R ss i)
         \<or> (\<exists>m. pattern_offset R (ss ! i) = Some m \<and> 0 < m)"
  shows "find_start R ss =
           Inr (int i, case pattern_offset R (ss ! i) of None \<Rightarrow> 0 | Some m \<Rightarrow> int m)"
  using start_loop_first_candidate[of ss 0 ss i "(0, 0)" R] assms
  by (simp add: find_start_def)

text \<open>
  The amended C6 at two transcripts. In the first the scan passes \<open>Hm.\<close>, the fallback
  test holds at sentence 1, in which no pattern is found, and the \<open>welcome to\<close> of sentence
  4 is never reached. In the second the scan passes \<open>Hm.\<close> and finds \<open>welcome to\<close> at
  offset 5 of sentence 1, before the long coherent sentence 2.
\<close>

theorem start_decided_at_first_candidate_witness:
  "find_start latin1_rt
     (map asc [''Hm.'', ''We are using the local copy of the data on a laptop for this.'', ''It is on the laptop.'', ''It is on the laptop.'', ''Okay welcome to class.''])
   = Inr (1, 0)
   \<and> find_start latin1_rt
     (map asc [''Hm.'', ''Okay welcome to class.'', ''We are using the local copy of the data on a laptop for this.'', ''It is on the laptop.'', ''It is on the laptop.''])
   = Inr (1, 5)"
proof -
  let ?ss = "map asc [''Hm.'', ''We are using the local copy of the data on a laptop for this.'', ''It is on the laptop.'', ''It is on the laptop.'', ''Okay welcome to class.'']"
  let ?ts = "map asc [''Hm.'', ''Okay welcome to class.'', ''We are using the local copy of the data on a laptop for this.'', ''It is on the laptop.'', ''It is on the laptop.'']"
  have h1: "1 < length ?ss" by simp
  have h0: "pattern_offset latin1_rt (?ss ! 0) = None \<and> \<not> fallback_test latin1_rt ?ss 0"
    by code_simp
  have h2: "\<forall>j<1. pattern_offset latin1_rt (?ss ! j) = None \<and> \<not> fallback_test latin1_rt ?ss j"
    using h0 by simp
  have p1: "pattern_offset latin1_rt (?ss ! 1) = None" by code_simp
  have f1: "fallback_test latin1_rt ?ss 1" by code_simp
  have h3: "(pattern_offset latin1_rt (?ss ! 1) = None \<and> fallback_test latin1_rt ?ss 1)
         \<or> (\<exists>m. pattern_offset latin1_rt (?ss ! 1) = Some m \<and> 0 < m)"
    using p1 f1 by blast
  have a: "find_start latin1_rt ?ss = Inr (1, 0)"
    using start_decided_at_first_candidate[OF h1 h2 h3] p1 by simp
  have g1: "1 < length ?ts" by simp
  have g0: "pattern_offset latin1_rt (?ts ! 0) = None \<and> \<not> fallback_test latin1_rt ?ts 0"
    by code_simp
  have g2: "\<forall>j<1. pattern_offset latin1_rt (?ts ! j) = None \<and> \<not> fallback_test latin1_rt ?ts j"
    using g0 by simp
  have q1: "pattern_offset latin1_rt (?ts ! 1) = Some 5" by code_simp
  have g3: "(pattern_offset latin1_rt (?ts ! 1) = None \<and> fallback_test latin1_rt ?ts 1)
         \<or> (\<exists>m. pattern_offset latin1_rt (?ts ! 1) = Some m \<and> 0 < m)"
    using q1 by simp
  have b: "find_start latin1_rt ?ts = Inr (1, 5)"
    using start_decided_at_first_candidate[OF g1 g2 g3] q1 by simp
  from a b show ?thesis by blast
qed

subsection \<open>C7: the earliest chatter hit\<close>

text \<open>
  C7. The chatter scan visits the indices \<open>max(0, N - 30) + 1 .. N - 1\<close> from the end and
  goes on after a hit; the \<open>chatter_start_index\<close> that it leaves is the smallest index of
  that window whose trimmed, lower-cased sentence matches some chatter pattern, and
  \<open>None\<close> when there is no such index.
\<close>

theorem chatter_start_is_earliest_hit:
  "find_chatter_start R ss =
     Inr (if chatter_hits R ss = {} then None else Some (Min (chatter_hits R ss)))"
proof -
  let ?P = "\<lambda>j. is_chatter R (lower R (strip (ss ! nat j)))"
  let ?w = "[max 0 (int (length ss) - 30) + 1..int (length ss) - 1]"
  have h: "chatter_hits R ss = Set.filter ?P (set ?w)"
    by (simp add: chatter_hits_def)
  show ?thesis
  proof (cases "filter ?P ?w")
    case Nil
    then have "Set.filter ?P (set ?w) = {}" by (auto simp: filter_empty_conv)
    with Nil show ?thesis by (simp add: find_chatter_start_spec h)
  next
    case (Cons k ks)
    have "Min (Set.filter ?P (set ?w)) = k"
      by (rule sorted_filter_head_Min[OF _ Cons]) simp
    moreover have "k \<in> set (filter ?P ?w)" using Cons by simp
    then have "Set.filter ?P (set ?w) \<noteq> {}" by auto
    ultimately show ?thesis using Cons by (simp add: find_chatter_start_spec h)
  qed
qed

subsection \<open>C8: a transcript of filler phrases only\<close>

text \<open>
  C8. When every sentence of the segmented, normalized input is, trimmed and lower-cased,
  one of the filler phrases, \<open>clean_transcript\<close> returns the empty string: the trailing
  strip drops sentences until \<open>end_index\<close> is no longer above \<open>start_index\<close>.
\<close>

theorem filler_only_gives_empty:
  assumes "\<forall>s \<in> set (split_sentences R (normalize_text R t)).
             lower R (strip s) \<in> set thank_you_variants"
  shows "clean_transcript R t = Inr []"
proof -
  let ?ss = "split_sentences R (normalize_text R t)"
  have d: "\<forall>s\<in>set ?ss. droppable (lower R (strip s))"
    using assms by (simp add: droppable_def)
  obtain st where st: "find_start R ?ss = Inr st" "0 \<le> fst st"
    using find_start_total by blast
  obtain e0 where e0: "chatter_end R ?ss = Inr e0" "0 \<le> e0" "e0 \<le> int (length ?ss)"
    using chatter_end_total by blast
  have e1: "tail_loop R ?ss (fst st) e0 = Inr (min (fst st) e0)"
    by (rule tail_loop_all_droppable[OF d st(2) e0(3)])
  have e2: "collapse_repetition R ?ss (fst st) (min (fst st) e0) = Inr (min (fst st) e0)"
    by (simp add: collapse_repetition_def)
  have b: "boundaries R ?ss = Inr (fst st, min (fst st) e0, snd st)"
    using st e0 e1 e2 by (simp add: boundaries_def)
  have "assemble R ?ss (fst st) (min (fst st) e0) (snd st) = []"
    using st(2) e0(2) by (intro assemble_empty) auto
  with b show ?thesis by (simp add: clean_transcript_def Let_def)
qed

text \<open>
  C8 at \<^verbatim>\<open>Thank you. Okay. Bye.\<close>: its three sentences are filler phrases, and the
  result is empty.
\<close>

theorem filler_only_gives_empty_witness:
  "clean_transcript latin1_rt (asc ''Thank you. Okay. Bye.'') = Inr []"
proof -
  have h: "\<forall>s \<in> set (split_sentences latin1_rt
                 (normalize_text latin1_rt (asc ''Thank you. Okay. Bye.''))).
       lower latin1_rt (strip s) \<in> set thank_you_variants"
    by code_simp
  from filler_only_gives_empty[OF h] show ?thesis .
qed

subsection \<open>C9: running the cleaner on its own output\<close>

text \<open>
  C9, as stated, fails: \<^verbatim>\<open>A welcome to me.\<close> is cleaned to \<^verbatim>\<open>welcome to me.\<close> (the
  pattern \<open>welcome to\<close> at offset 2 trims the first two characters), and that output, now
  14 characters long, is dropped by the trailing strip as a very short sentence when the
  cleaner runs again.
\<close>

theorem rerun_shrinks_further:
  "clean_transcript latin1_rt (asc ''A welcome to me.'') = Inr (asc ''welcome to me.'')
   \<and> clean_transcript latin1_rt (asc ''welcome to me.'') = Inr []"
  by code_simp

text \<open>
  C9, amended. Running the cleaner on its own output never raises and never gives a
  longer text; it can give a shorter one.
\<close>

theorem rerun_never_longer:
  "\<exists>out out2. clean_transcript R t = Inr out \<and> clean_transcript R out = Inr out2
     \<and> length out2 \<le> length out"
proof -
  obtain out where o1: "clean_transcript R t = Inr out"
    using clean_transcript_bound by blast
  obtain out2 where o2: "clean_transcript R out = Inr out2"
      "length out2 \<le> length (normalize_text R out)"
    using clean_transcript_bound by blast
  from o2(2) normalize_text_length[of R out] have "length out2 \<le> length out" by simp
  with o1 o2(1) show ?thesis by blast
qed

subsection \<open>C10: words with accented characters\<close>

text \<open>
  C10. The claim is that the normalization deletes every word that contains one of the
  accented characters, wherever it stands. The pattern, which the source comments as
  \<^verbatim>\<open>Words with accented chars (hallucinations)\<close>, asks for exactly one accented character
  between ASCII letters. The word \<^verbatim>\<open>cafe\<close> written with e-acute (99 97 102 233) is
  deleted from \<^verbatim>\<open>I like cafe food.\<close>; the word \<^verbatim>\<open>resume\<close> written with e-acute twice
  (114 233 115 117 109 233) is left as it is by the normalization, and a sentence that
  contains it is returned unchanged by \<open>clean_transcript\<close>.
\<close>

theorem two_accents_survive:
  "normalize_text latin1_rt (asc ''I like caf'' @ [233] @ asc '' food.'') = asc ''I like  food.''
   \<and> normalize_text latin1_rt [114, 233, 115, 117, 109, 233] = [114, 233, 115, 117, 109, 233]
   \<and> clean_transcript latin1_rt (asc ''We will now look at the r'' @ [233] @ asc ''sum'' @ [233] @ asc '' of the course and the plan.'')
       = Inr (asc ''We will now look at the r'' @ [233] @ asc ''sum'' @ [233] @ asc '' of the course and the plan.'')"
  by code_simp

end
